theory Spec2Isabelle
  imports Main "HOL-Library.Sublist"
begin

section \<open>Text\<close>

text \<open>
  A Python \<open>str\<close> is modelled as a \<open>string\<close>, each \<open>char\<close> standing for one code point
  in the range U+0000..U+00FF. Integers are Python's unbounded \<open>int\<close>.
\<close>

definition is_digit :: "char \<Rightarrow> bool" where
  \<comment> \<open>\<open>\d\<close> on a \<open>str\<close> pattern; below U+0100 these are the ASCII digits\<close>
  "is_digit c = (c \<in> set ''0123456789'')"

definition is_space :: "char \<Rightarrow> bool" where
  \<comment> \<open>\<open>\s\<close> on a \<open>str\<close> pattern and \<open>str.isspace\<close>, below U+0100\<close>
  "is_space c = (of_char c \<in> {9, 10, 11, 12, 13, 28, 29, 30, 31, 32, 133, 160 :: nat})"

text \<open>\<open>sub in s\<close> for two strings.\<close>

fun py_in :: "string \<Rightarrow> string \<Rightarrow> bool" where
  "py_in sub [] = (sub = [])"
| "py_in sub (c # cs) = (prefix sub (c # cs) \<or> py_in sub cs)"

text \<open>\<open>str(n)\<close> for an integer.\<close>

definition digit_chr :: "nat \<Rightarrow> char" where
  "digit_chr d = ''0123456789'' ! d"

fun str_nat :: "nat \<Rightarrow> string" where
  "str_nat n = (if n < 10 then [digit_chr n] else str_nat (n div 10) @ [digit_chr (n mod 10)])"

declare str_nat.simps [simp del]

definition str_int :: "int \<Rightarrow> string" where
  "str_int n = (if n < 0 then CHR ''-'' # str_nat (nat (- n)) else str_nat (nat n))"

text \<open>
  \<open>int(s)\<close> on a string: surrounding whitespace is dropped, one sign is allowed, and the
  digits may be separated by single underscores. \<open>None\<close> stands for the \<open>ValueError\<close>.
\<close>

definition digit_val :: "char \<Rightarrow> nat" where
  "digit_val c = of_char c - 48"

definition digits_val :: "string \<Rightarrow> nat" where
  "digits_val ds = foldl (\<lambda>a c. 10 * a + digit_val c) 0 ds"

fun int_digits :: "bool \<Rightarrow> string \<Rightarrow> string option" where
  "int_digits prev_digit [] = (if prev_digit then Some [] else None)"
| "int_digits prev_digit (c # cs) =
     (if is_digit c then map_option ((#) c) (int_digits True cs)
      else if c = CHR ''_'' \<and> prev_digit then int_digits False cs
      else None)"

definition is_int_space :: "char \<Rightarrow> bool" where
  \<comment> \<open>the characters that \<open>int\<close> drops around the number, below U+0100\<close>
  "is_int_space c = (of_char c \<in> {9, 10, 11, 12, 13, 32, 133, 160 :: nat})"

definition strip_ws :: "string \<Rightarrow> string" where
  "strip_ws s = rev (dropWhile is_int_space (rev (dropWhile is_int_space s)))"

definition py_int :: "string \<Rightarrow> int option" where
  "py_int s =
     (let t = strip_ws s;
          (neg, body) = (case t of
                           c # r \<Rightarrow> if c = CHR ''-'' then (True, r)
                                    else if c = CHR ''+'' then (False, r) else (False, t)
                         | [] \<Rightarrow> (False, t))
      in case int_digits False body of
           None \<Rightarrow> None
         | Some ds \<Rightarrow> Some (if neg then - int (digits_val ds) else int (digits_val ds)))"

text \<open>\<open>s.split(sep)\<close> and \<open>s.strip(c)\<close> for a one-character argument.\<close>

fun split_chr :: "char \<Rightarrow> string \<Rightarrow> string list" where
  "split_chr sep [] = [[]]"
| "split_chr sep (c # cs) =
     (if c = sep then [] # split_chr sep cs
      else (case split_chr sep cs of p # ps \<Rightarrow> (c # p) # ps | [] \<Rightarrow> [[c]]))"


section \<open>Regular expressions\<close>

text \<open>
  The fragment of Python's \<open>re\<close> that the patterns of the program use, with the
  backtracking semantics of the library: the alternatives of a match are listed in the
  order in which the matcher tries them, and the match found is the first of the list.
\<close>

datatype cls = Digits | Spaces

datatype rx =
    Eps
  | Lit char
  | Cls cls
  | Seq rx rx
  | Alt rx rx
  | Opt rx
  | Plus cls
  | Grp rx
  | WordB

fun in_cls :: "cls \<Rightarrow> char \<Rightarrow> bool" where
  "in_cls Digits c = is_digit c"
| "in_cls Spaces c = is_space c"

definition is_word :: "char \<Rightarrow> bool" where
  \<comment> \<open>\<open>\w\<close> on a \<open>str\<close> pattern, below U+0100\<close>
  "is_word c =
     (let n = (of_char c :: nat)
      in (48 \<le> n \<and> n \<le> 57) \<or> (65 \<le> n \<and> n \<le> 90) \<or> n = 95 \<or> (97 \<le> n \<and> n \<le> 122)
         \<or> n = 170 \<or> n = 178 \<or> n = 179 \<or> n = 181 \<or> n = 185 \<or> n = 186
         \<or> (188 \<le> n \<and> n \<le> 190) \<or> (192 \<le> n \<and> n \<le> 214) \<or> (216 \<le> n \<and> n \<le> 246)
         \<or> 248 \<le> n)"

definition word_next :: "string \<Rightarrow> bool" where
  "word_next s = (case s of [] \<Rightarrow> False | c # _ \<Rightarrow> is_word c)"

definition lower :: "char \<Rightarrow> char" where
  "lower c =
     (case map_of (zip ''ABCDEFGHIJKLMNOPQRSTUVWXYZ'' ''abcdefghijklmnopqrstuvwxyz'') c of
        Some d \<Rightarrow> d
      | None \<Rightarrow> c)"

definition chr_eq :: "bool \<Rightarrow> char \<Rightarrow> char \<Rightarrow> bool" where
  \<comment> \<open>the flag is \<open>re.IGNORECASE\<close>\<close>
  "chr_eq ignorecase c d = (if ignorecase then lower c = lower d else c = d)"

text \<open>
  A matcher state: the text before the position (reversed), the text from the position
  on, and the text of the capturing group.
\<close>

type_synonym mstate = "string \<times> string \<times> string"

fun plus_states :: "cls \<Rightarrow> string \<Rightarrow> string \<Rightarrow> string \<Rightarrow> mstate list" where
  "plus_states k bef [] g = []"
| "plus_states k bef (d # ds) g =
     (if in_cls k d then plus_states k (d # bef) ds g @ [(d # bef, ds, g)] else [])"

fun rx_step :: "bool \<Rightarrow> rx \<Rightarrow> mstate \<Rightarrow> mstate list" where
  "rx_step ic Eps st = [st]"
| "rx_step ic (Lit c) (bef, rest, g) =
     (case rest of [] \<Rightarrow> [] | d # ds \<Rightarrow> if chr_eq ic c d then [(d # bef, ds, g)] else [])"
| "rx_step ic (Cls k) (bef, rest, g) =
     (case rest of [] \<Rightarrow> [] | d # ds \<Rightarrow> if in_cls k d then [(d # bef, ds, g)] else [])"
| "rx_step ic (Seq a b) st = concat (map (rx_step ic b) (rx_step ic a st))"
| "rx_step ic (Alt a b) st = rx_step ic a st @ rx_step ic b st"
| "rx_step ic (Opt a) st = rx_step ic a st @ [st]"
| "rx_step ic (Plus k) (bef, rest, g) = plus_states k bef rest g"
| "rx_step ic (Grp a) (bef, rest, g) =
     map (\<lambda>(bef', rest', g'). (bef', rest', take (length rest - length rest') rest))
       (rx_step ic a (bef, rest, g))"
| "rx_step ic WordB (bef, rest, g) =
     (if word_next bef \<noteq> word_next rest then [(bef, rest, g)] else [])"

fun lits :: "string \<Rightarrow> rx" where
  "lits [] = Eps"
| "lits (c # cs) = Seq (Lit c) (lits cs)"

text \<open>\<open>re.search(r, text)\<close>: the first match at the leftmost position that has one.\<close>

fun search_from :: "bool \<Rightarrow> rx \<Rightarrow> string \<Rightarrow> string \<Rightarrow> mstate option" where
  "search_from ic r bef [] = (case rx_step ic r (bef, [], []) of [] \<Rightarrow> None | st # _ \<Rightarrow> Some st)"
| "search_from ic r bef (c # cs) =
     (case rx_step ic r (bef, c # cs, []) of
        [] \<Rightarrow> search_from ic r (c # bef) cs
      | st # _ \<Rightarrow> Some st)"

definition re_search :: "bool \<Rightarrow> rx \<Rightarrow> string \<Rightarrow> mstate option" where
  "re_search ic r text = search_from ic r [] text"

text \<open>
  \<open>re.findall(r, text)\<close> for a pattern with one group: the group texts of the successive
  non-overlapping matches, scanning from the left. After a match that consumed nothing
  the scan moves one character on.
\<close>

function findall_from :: "bool \<Rightarrow> rx \<Rightarrow> string \<Rightarrow> string \<Rightarrow> string list" where
  "findall_from ic r bef rest =
     (case rx_step ic r (bef, rest, []) of
        [] \<Rightarrow> (case rest of [] \<Rightarrow> [] | c # cs \<Rightarrow> findall_from ic r (c # bef) cs)
      | (bef', rest', g) # _ \<Rightarrow>
          if length rest' < length rest then g # findall_from ic r bef' rest'
          else (case rest of [] \<Rightarrow> [g] | c # cs \<Rightarrow> g # findall_from ic r (c # bef) cs))"
  by pat_completeness auto
termination
  by (relation "measure (\<lambda>(ic, r, bef, rest). length rest)") auto

declare findall_from.simps [simp del]

definition re_findall :: "bool \<Rightarrow> rx \<Rightarrow> string \<Rightarrow> string list" where
  "re_findall ic r text = findall_from ic r [] text"

section \<open>Reference extraction\<close>

text \<open>
  The three patterns of \<open>extract_pr_references\<close> (lines 87, 92 and 97):
  \<^verbatim>\<open>#(\d+)\<close>,
  \<^verbatim>\<open>https://github\.com/{re.escape(owner)}/{re.escape(repo)}/pull/(\d+)\<close> and
  \<^verbatim>\<open>(?:closes?|fixes?|resolves?)\s+#(\d+)\<close>.
\<close>

definition hashtag_pattern :: rx where
  "hashtag_pattern = Seq (Lit CHR ''#'') (Grp (Plus Digits))"

definition url_pattern :: "string \<Rightarrow> string \<Rightarrow> rx" where
  "url_pattern owner repo =
     Seq (lits (''https://github.com/'' @ owner @ ''/'' @ repo @ ''/pull/'')) (Grp (Plus Digits))"

definition closing_verbs :: rx where
  "closing_verbs =
     Alt (Seq (lits ''close'') (Opt (Lit CHR ''s'')))
       (Alt (Seq (lits ''fixe'') (Opt (Lit CHR ''s'')))
          (Seq (lits ''resolve'') (Opt (Lit CHR ''s''))))"

definition closing_pattern :: rx where
  "closing_pattern =
     Seq (Seq (Seq closing_verbs (Plus Spaces)) (Lit CHR ''#'')) (Grp (Plus Digits))"

text \<open>
  \<open>list(set(xs))\<close> lists the distinct elements of \<open>xs\<close> in an order that the language
  leaves open; the order is a parameter of the model.
\<close>

definition set_order :: "(int list \<Rightarrow> int list) \<Rightarrow> bool" where
  "set_order list_set = (\<forall>xs. distinct (list_set xs) \<and> set (list_set xs) = set xs)"

definition int_of_match :: "string \<Rightarrow> int" where
  \<comment> \<open>\<open>int(match)\<close> for a match of \<open>\d+\<close>\<close>
  "int_of_match m = int (digits_val m)"

definition extract_pr_references ::
  "(int list \<Rightarrow> int list) \<Rightarrow> string \<Rightarrow> string \<Rightarrow> string \<Rightarrow> int list" where
  "extract_pr_references list_set text owner repo =
     (let pr_numbers = [];
          pr_numbers = pr_numbers @ map int_of_match (re_findall False hashtag_pattern text);
          pr_numbers = pr_numbers @ map int_of_match (re_findall False (url_pattern owner repo) text);
          pr_numbers = pr_numbers @ map int_of_match (re_findall True closing_pattern text)
      in list_set pr_numbers)"

text \<open>Whether a digit stands immediately after some occurrence of \<open>w\<close> in the text.\<close>

fun digit_follows :: "string \<Rightarrow> string \<Rightarrow> bool" where
  "digit_follows w [] = False"
| "digit_follows w (c # cs) =
     ((prefix w (c # cs) \<and> (case drop (length w) (c # cs) of [] \<Rightarrow> False | d # _ \<Rightarrow> is_digit d))
      \<or> digit_follows w cs)"

section \<open>The tracker\<close>

text \<open>
  The four read operations answer with a status code and a decoded JSON value. The
  tracker is a fixed table of answers; every request that is sent is logged.
\<close>

datatype error =
    InvalidFormat            \<comment> \<open>the \<open>ValueError\<close> raised on line 252\<close>
  | UnpackError              \<comment> \<open>the \<open>ValueError\<close> of a tuple assignment with the wrong number of values\<close>
  | IntError                 \<comment> \<open>the \<open>ValueError\<close> of \<open>int\<close>\<close>
  | UrlError                 \<comment> \<open>the \<open>ValueError\<close> of \<open>urlparse\<close>\<close>
  | IssueNotFound            \<comment> \<open>the exception raised on line 33\<close>
  | ApiRequestFailed nat     \<comment> \<open>the exception raised on line 35\<close>

record 'a response =
  status_code :: nat
  json :: 'a

record issue =
  issue_state :: string
  issue_body :: "string option"

record comment =
  comment_body :: "string option"

record source =
  source_type :: "string option"
  source_pull_request_url :: "string option"
    \<comment> \<open>\<open>source['issue']['pull_request']['url']\<close>, when \<open>source['issue']\<close> has the key \<open>pull_request\<close>\<close>

record event =
  event_event :: "string option"
  event_source :: "source option"
  event_commit_id :: "string option"

record pr =
  pull_number :: int
  pull_state :: string
  pull_merged :: bool
  pull_body :: "string option"

record github =
  issues_api :: "string \<Rightarrow> string \<Rightarrow> int \<Rightarrow> issue response"
  comments_api :: "string \<Rightarrow> string \<Rightarrow> int \<Rightarrow> nat \<Rightarrow> comment list response"
  events_api :: "string \<Rightarrow> string \<Rightarrow> int \<Rightarrow> event list response"
  pulls_api :: "string \<Rightarrow> string \<Rightarrow> int \<Rightarrow> pr response"

datatype request =
    GetIssue string string int
  | GetComments string string int nat
  | GetEvents string string int
  | GetPull string string int

definition get_issue :: "github \<Rightarrow> string \<Rightarrow> string \<Rightarrow> int \<Rightarrow> (error + issue) \<times> request list" where
  "get_issue gh owner repo issue_number =
     (let response = issues_api gh owner repo issue_number;
          sent = [GetIssue owner repo issue_number]
      in if status_code response = 404 then (Inl IssueNotFound, sent)
         else if status_code response \<noteq> 200 then (Inl (ApiRequestFailed (status_code response)), sent)
         else (Inr (json response), sent))"

text \<open>
  The loop of \<open>get_issue_comments\<close> (lines 45 to 60). It need not end; \<open>None\<close> stands
  for a run that does not return.
\<close>

partial_function (option) comments_loop ::
  "github \<Rightarrow> string \<Rightarrow> string \<Rightarrow> int \<Rightarrow> nat \<Rightarrow> comment list \<Rightarrow> request list
     \<Rightarrow> (comment list \<times> request list) option" where
  "comments_loop gh owner repo issue_number page comments sent =
     (if status_code (comments_api gh owner repo issue_number page) \<noteq> 200
      then Some (comments, sent @ [GetComments owner repo issue_number page])
      else if json (comments_api gh owner repo issue_number page) = []
      then Some (comments, sent @ [GetComments owner repo issue_number page])
      else comments_loop gh owner repo issue_number (page + 1)
             (comments @ json (comments_api gh owner repo issue_number page))
             (sent @ [GetComments owner repo issue_number page]))"

definition get_issue_comments ::
  "github \<Rightarrow> string \<Rightarrow> string \<Rightarrow> int \<Rightarrow> (comment list \<times> request list) option" where
  "get_issue_comments gh owner repo issue_number = comments_loop gh owner repo issue_number 1 [] []"

definition get_issue_events ::
  "github \<Rightarrow> string \<Rightarrow> string \<Rightarrow> int \<Rightarrow> event list \<times> request list" where
  "get_issue_events gh owner repo issue_number =
     (let response = events_api gh owner repo issue_number
      in (if status_code response = 200 then json response else [],
          [GetEvents owner repo issue_number]))"

text \<open>\<open>get_pr\<close> answers \<open>{}\<close> on failure, which the caller tests as false: \<open>None\<close>.\<close>

definition get_pr :: "github \<Rightarrow> string \<Rightarrow> string \<Rightarrow> int \<Rightarrow> pr option \<times> request list" where
  "get_pr gh owner repo pr_number =
     (let response = pulls_api gh owner repo pr_number
      in (if status_code response = 200 then Some (json response) else None,
          [GetPull owner repo pr_number]))"

section \<open>Selection: the mention test\<close>

text \<open>
  Line 149 of \<open>find_solving_pr\<close>:
  \<^verbatim>\<open>if f"#{issue_number}" in pr_body or str(issue_number) in pr_body:\<close>
\<close>

definition mentions_issue :: "int \<Rightarrow> string \<Rightarrow> bool" where
  "mentions_issue issue_number pr_body =
     (py_in (CHR ''#'' # str_int issue_number) pr_body \<or> py_in (str_int issue_number) pr_body)"

text \<open>
  The pattern of line 151,
  \<^verbatim>\<open>(?:closes?|fixes?|resolves?)\s+#{issue_number}\b\<close>, searched with \<open>re.IGNORECASE\<close>.
\<close>

definition issue_closing_pattern :: "int \<Rightarrow> rx" where
  "issue_closing_pattern issue_number =
     Seq (Seq (Seq (Seq closing_verbs (Plus Spaces)) (Lit CHR ''#'')) (lits (str_int issue_number)))
       WordB"

text \<open>
  The loop of lines 144 to 156 over the candidates in their order of iteration, with
  the value of \<open>solving_pr\<close> so far and the requests sent so far.
\<close>

fun select_loop ::
  "github \<Rightarrow> string \<Rightarrow> string \<Rightarrow> int \<Rightarrow> int list \<Rightarrow> pr option \<Rightarrow> request list
     \<Rightarrow> pr option \<times> request list" where
  "select_loop gh owner repo issue_number [] solving_pr sent = (solving_pr, sent)"
| "select_loop gh owner repo issue_number (pr_num # rest) solving_pr sent =
     (case get_pr gh owner repo pr_num of
        (None, sent1) \<Rightarrow> select_loop gh owner repo issue_number rest solving_pr (sent @ sent1)
      | (Some p, sent1) \<Rightarrow>
          if pull_state p = ''closed'' \<and> pull_merged p then
            (let pr_body = (case pull_body p of None \<Rightarrow> [] | Some b \<Rightarrow> b)
             in if mentions_issue issue_number pr_body then
                  if re_search True (issue_closing_pattern issue_number) pr_body \<noteq> None
                  then (Some p, sent @ sent1)
                  else if solving_pr = None
                  then select_loop gh owner repo issue_number rest (Some p) (sent @ sent1)
                  else select_loop gh owner repo issue_number rest solving_pr (sent @ sent1)
                else select_loop gh owner repo issue_number rest solving_pr (sent @ sent1))
          else select_loop gh owner repo issue_number rest solving_pr (sent @ sent1))"

text \<open>The tests of the loop, by name.\<close>

definition pr_body_text :: "pr \<Rightarrow> string" where
  "pr_body_text p = (case pull_body p of None \<Rightarrow> [] | Some b \<Rightarrow> b)"

definition eligible :: "int \<Rightarrow> pr \<Rightarrow> bool" where
  "eligible issue_number p =
     (pull_state p = ''closed'' \<and> pull_merged p \<and> mentions_issue issue_number (pr_body_text p))"

definition strong_match :: "int \<Rightarrow> pr \<Rightarrow> bool" where
  "strong_match issue_number p =
     (eligible issue_number p
      \<and> re_search True (issue_closing_pattern issue_number) (pr_body_text p) \<noteq> None)"

definition fetched_pr :: "github \<Rightarrow> string \<Rightarrow> string \<Rightarrow> int \<Rightarrow> pr option" where
  "fetched_pr gh owner repo pr_num = fst (get_pr gh owner repo pr_num)"

section \<open>Collection and the whole inference\<close>

definition body_refs :: "(int list \<Rightarrow> int list) \<Rightarrow> string option \<Rightarrow> string \<Rightarrow> string \<Rightarrow> int list" where
  \<comment> \<open>\<open>if x['body']: pr_candidates.extend(self.extract_pr_references(x['body'], owner, repo))\<close>\<close>
  "body_refs list_set body owner repo =
     (case body of
        None \<Rightarrow> []
      | Some b \<Rightarrow> if b = [] then [] else extract_pr_references list_set b owner repo)"

text \<open>The loop over the events (lines 128 to 137); \<open>int\<close> may raise.\<close>

fun event_refs :: "event list \<Rightarrow> error + int list" where
  "event_refs [] = Inr []"
| "event_refs (ev # evs) =
     (case (if event_event ev = Some ''cross-referenced'' then event_source ev else None) of
        None \<Rightarrow> event_refs evs
      | Some src \<Rightarrow>
          (case (if source_type src = Some ''issue'' then source_pull_request_url src else None) of
             None \<Rightarrow> event_refs evs
           | Some pr_url \<Rightarrow>
               (case py_int (last (split_chr CHR ''/'' pr_url)) of
                  None \<Rightarrow> Inl IntError
                | Some pr_number \<Rightarrow>
                    (case event_refs evs of Inl e \<Rightarrow> Inl e | Inr ns \<Rightarrow> Inr (pr_number # ns)))))"

definition find_solving_pr ::
  "github \<Rightarrow> (int list \<Rightarrow> int list) \<Rightarrow> string \<Rightarrow> string \<Rightarrow> int
     \<Rightarrow> ((error + pr option) \<times> request list) option" where
  "find_solving_pr gh list_set owner repo issue_number =
     (case get_issue gh owner repo issue_number of
        (Inl e, sent) \<Rightarrow> Some (Inl e, sent)
      | (Inr issue, sent) \<Rightarrow>
          (case get_issue_comments gh owner repo issue_number of
             None \<Rightarrow> None
           | Some (comments, sent_c) \<Rightarrow>
               (case get_issue_events gh owner repo issue_number of
                  (events, sent_e) \<Rightarrow>
                    (case event_refs events of
                       Inl e \<Rightarrow> Some (Inl e, sent @ sent_c @ sent_e)
                     | Inr refs \<Rightarrow>
                         (let pr_candidates = list_set
                                (body_refs list_set (issue_body issue) owner repo
                                 @ concat (map (\<lambda>c. body_refs list_set (comment_body c) owner repo) comments)
                                 @ refs)
                          in case select_loop gh owner repo issue_number pr_candidates None [] of
                               (solving_pr, sent_p) \<Rightarrow>
                                 Some (Inr solving_pr, sent @ sent_c @ sent_e @ sent_p))))))"

section \<open>The report and the command\<close>















text \<open>The digits that stand immediately after some occurrence of \<open>w\<close> in the text.\<close>

definition digits_after :: "string \<Rightarrow> string \<Rightarrow> string \<Rightarrow> bool" where
  "digits_after w text g =
     (\<exists>u ds. text = u @ w @ ds \<and> ds \<noteq> [] \<and> is_digit (hd ds) \<and> g = takeWhile is_digit ds)"

section \<open>Vocabulary of the properties\<close>

text \<open>What the loop finds out about a candidate number when it fetches it.\<close>

definition eligible_at :: "github \<Rightarrow> string \<Rightarrow> string \<Rightarrow> int \<Rightarrow> int \<Rightarrow> bool" where
  "eligible_at gh owner repo issue_number pr_num =
     (case fetched_pr gh owner repo pr_num of None \<Rightarrow> False | Some p \<Rightarrow> eligible issue_number p)"

definition strong_at :: "github \<Rightarrow> string \<Rightarrow> string \<Rightarrow> int \<Rightarrow> int \<Rightarrow> bool" where
  "strong_at gh owner repo issue_number pr_num =
     (case fetched_pr gh owner repo pr_num of None \<Rightarrow> False | Some p \<Rightarrow> strong_match issue_number p)"

text \<open>The numbers of the pull requests that a log of requests asks for.\<close>

fun pull_numbers :: "request list \<Rightarrow> int list" where
  "pull_numbers [] = []"
| "pull_numbers (GetPull owner repo k # rs) = k # pull_numbers rs"
| "pull_numbers (_ # rs) = pull_numbers rs"

text \<open>A page of comments that ends the pagination: it failed or it is empty.\<close>

definition page_stops :: "github \<Rightarrow> string \<Rightarrow> string \<Rightarrow> int \<Rightarrow> nat \<Rightarrow> bool" where
  "page_stops gh owner repo issue_number page =
     (status_code (comments_api gh owner repo issue_number page) \<noteq> 200
      \<or> json (comments_api gh owner repo issue_number page) = [])"

declare comments_loop.simps [code]

section \<open>Example trackers\<close>

text \<open>
  A closed and merged pull request with a given body, and a tracker for issue 42 of the
  scenarios: the issue body is \<open>see #7 for context\<close>, the one comment is
  \<open>fixed by #99, closes #42 via #99\<close>, there are no events, and the pull requests that
  exist are given by a table of bodies. The status code of the issue fetch is a parameter.
\<close>

definition example_pr :: "int \<Rightarrow> string \<Rightarrow> pr" where
  "example_pr k body =
     \<lparr>pull_number = k, pull_state = ''closed'', pull_merged = True, pull_body = Some body\<rparr>"

definition example_github :: "nat \<Rightarrow> (int \<Rightarrow> string option) \<Rightarrow> github" where
  "example_github issue_status bodies =
     \<lparr>issues_api = (\<lambda>owner repo n.
        \<lparr>status_code = issue_status,
         json = \<lparr>issue_state = ''closed'', issue_body = Some ''see #7 for context''\<rparr>\<rparr>),
      comments_api = (\<lambda>owner repo n page.
        \<lparr>status_code = 200,
         json = (if page = 1 then [\<lparr>comment_body = Some ''fixed by #99, closes #42 via #99''\<rparr>]
                 else [])\<rparr>),
      events_api = (\<lambda>owner repo n. \<lparr>status_code = 200, json = []\<rparr>),
      pulls_api = (\<lambda>owner repo k.
        case bodies k of
          None \<Rightarrow> \<lparr>status_code = 404, json = example_pr k []\<rparr>
        | Some b \<Rightarrow> \<lparr>status_code = 200, json = example_pr k b\<rparr>)\<rparr>"


section \<open>Facts about text\<close>

lemma py_in_sublist: "py_in sub s \<longleftrightarrow> sublist sub s"
  by (induction s) (auto simp: sublist_Cons_right)

lemma py_in_tail: "py_in (c # sub) s \<Longrightarrow> py_in sub s"
proof -
  assume "py_in (c # sub) s"
  then obtain ps ss where "s = ps @ (c # sub) @ ss"
    by (auto simp: py_in_sublist sublist_def)
  then have "s = (ps @ [c]) @ sub @ ss" by simp
  then show ?thesis
    unfolding py_in_sublist sublist_def by blast
qed

lemma str_nat_42: "str_nat 42 = ''42''"
  by (simp add: str_nat.simps [of 42] str_nat.simps [of 4] digit_chr_def)

subsection \<open>The matcher\<close>

lemma plus_states_consumes:
  "(b', r', g') \<in> set (plus_states k b s g) \<Longrightarrow>
     \<exists>cons. cons \<noteq> [] \<and> s = cons @ r' \<and> b' = rev cons @ b \<and> g' = g"
proof (induction s arbitrary: b)
  case Nil
  then show ?case by simp
next
  case (Cons d ds)
  show ?case
  proof (cases "in_cls k d")
    case False
    with Cons.prems show ?thesis by simp
  next
    case True
    with Cons.prems consider "(b', r', g') \<in> set (plus_states k (d # b) ds g)"
      | "b' = d # b" "r' = ds" "g' = g"
      by auto
    then show ?thesis
    proof cases
      case 1
      from Cons.IH [OF 1] obtain cons where
        "ds = cons @ r'" "b' = rev cons @ d # b" "g' = g" by blast
      then have "d # cons \<noteq> [] \<and> d # ds = (d # cons) @ r' \<and> b' = rev (d # cons) @ b \<and> g' = g"
        by simp
      then show ?thesis by blast
    next
      case 2
      then have "[d] \<noteq> [] \<and> d # ds = [d] @ r' \<and> b' = rev [d] @ b \<and> g' = g" by simp
      then show ?thesis by blast
    qed
  qed
qed

lemma rx_step_consumes:
  "(b', r', g') \<in> set (rx_step ic r (b, s, g)) \<Longrightarrow> \<exists>cons. s = cons @ r' \<and> b' = rev cons @ b"
proof (induction r arbitrary: b s g b' r' g')
  case Eps
  then show ?case by simp
next
  case (Lit c)
  then show ?case by (cases s) (auto split: if_splits)
next
  case (Cls k)
  then show ?case by (cases s) (auto split: if_splits)
next
  case (Seq p q)
  from Seq.prems obtain b1 r1 g1 where
    p: "(b1, r1, g1) \<in> set (rx_step ic p (b, s, g))" and
    q: "(b', r', g') \<in> set (rx_step ic q (b1, r1, g1))"
    by auto
  from Seq.IH(1) [OF p] obtain c1 where c1: "s = c1 @ r1" "b1 = rev c1 @ b" by blast
  from Seq.IH(2) [OF q] obtain c2 where c2: "r1 = c2 @ r'" "b' = rev c2 @ b1" by blast
  from c1 c2 have "s = (c1 @ c2) @ r' \<and> b' = rev (c1 @ c2) @ b" by simp
  then show ?case by blast
next
  case (Alt p q)
  then show ?case by auto
next
  case (Opt p)
  then show ?case by auto
next
  case (Plus k)
  then show ?case by (auto dest: plus_states_consumes)
next
  case (Grp p)
  then show ?case by auto
next
  case WordB
  then show ?case by (auto split: if_splits)
qed

lemma plus_states_Nil: "plus_states k b s g = [] \<longleftrightarrow> (s = [] \<or> \<not> in_cls k (hd s))"
  by (cases s) auto

lemma plus_states_hd:
  "s \<noteq> [] \<Longrightarrow> in_cls k (hd s) \<Longrightarrow>
     hd (plus_states k b s g) = (rev (takeWhile (in_cls k) s) @ b, dropWhile (in_cls k) s, g)"
proof (induction s arbitrary: b)
  case Nil
  then show ?case by simp
next
  case (Cons d ds)
  then have d: "in_cls k d" by simp
  show ?case
  proof (cases "ds = [] \<or> \<not> in_cls k (hd ds)")
    case True
    then have "plus_states k (d # b) ds g = []" by (simp add: plus_states_Nil)
    moreover from True have "takeWhile (in_cls k) ds = []" "dropWhile (in_cls k) ds = ds"
      by (cases ds; auto)+
    ultimately show ?thesis using d by simp
  next
    case False
    then have ne: "plus_states k (d # b) ds g \<noteq> []" by (simp add: plus_states_Nil)
    from False Cons.IH [of "d # b"]
    have "hd (plus_states k (d # b) ds g)
          = (rev (takeWhile (in_cls k) ds) @ d # b, dropWhile (in_cls k) ds, g)" by simp
    with ne d show ?thesis by simp
  qed
qed

lemma concat_map_Cons:
  "concat (map f xs) = y # ys \<Longrightarrow> \<exists>x \<in> set xs. \<exists>zs. f x = y # zs"
  by (induction xs) (auto simp: append_eq_Cons_conv)

lemma length_takeWhile_dropWhile: "length xs - length (dropWhile P xs) = length (takeWhile P xs)"
  by (metis add_diff_cancel_right' length_append takeWhile_dropWhile_id)

lemma grp_digits_step:
  "rx_step ic (Grp (Plus Digits)) (b, s, g) = st # sts \<Longrightarrow>
     s \<noteq> [] \<and> is_digit (hd s)
     \<and> st = (rev (takeWhile is_digit s) @ b, dropWhile is_digit s, takeWhile is_digit s)"
proof -
  assume a: "rx_step ic (Grp (Plus Digits)) (b, s, g) = st # sts"
  then have ne: "plus_states Digits b s g \<noteq> []" by auto
  then have s: "s \<noteq> []" "in_cls Digits (hd s)" by (auto simp: plus_states_Nil)
  have eta: "in_cls Digits = is_digit" by (rule ext) simp
  from a ne have "st = (\<lambda>(bef', rest', g'). (bef', rest', take (length s - length rest') s))
                        (hd (plus_states Digits b s g))"
    by (cases "plus_states Digits b s g") auto
  with plus_states_hd [OF s, of b g] show ?thesis
    using s by (simp add: eta length_takeWhile_dropWhile takeWhile_eq_take [symmetric])
qed

lemma seq_digits_first:
  assumes "rx_step ic (Seq p (Grp (Plus Digits))) st0 = (bef', rest', g) # sts"
  shows "\<exists>b1 r1 g1. (b1, r1, g1) \<in> set (rx_step ic p st0) \<and> r1 \<noteq> [] \<and> is_digit (hd r1)
           \<and> g = takeWhile is_digit r1 \<and> rest' = dropWhile is_digit r1"
proof -
  from assms obtain x zs where x: "x \<in> set (rx_step ic p st0)"
    and f: "rx_step ic (Grp (Plus Digits)) x = (bef', rest', g) # zs"
    by (auto dest: concat_map_Cons)
  obtain b1 r1 g1 where x_eq: "x = (b1, r1, g1)" by (cases x)
  from grp_digits_step [OF f [unfolded x_eq]] x x_eq show ?thesis by blast
qed

lemma findall_sound:
  "g \<in> set (findall_from ic r bef rest) \<Longrightarrow> r = Seq p (Grp (Plus Digits)) \<Longrightarrow>
     \<exists>u s b1 r1 g1. rest = u @ s \<and> (b1, r1, g1) \<in> set (rx_step ic p (rev u @ bef, s, []))
        \<and> r1 \<noteq> [] \<and> is_digit (hd r1) \<and> g = takeWhile is_digit r1"
proof (induction ic r bef rest rule: findall_from.induct)
  case (1 ic r bef rest)
  note r = \<open>r = Seq p (Grp (Plus Digits))\<close>
  show ?case
  proof (cases "rx_step ic r (bef, rest, [])")
    case Nil
    show ?thesis
    proof (cases rest)
      case Nil' : Nil
      with Nil "1.prems"(1) show ?thesis by (simp add: findall_from.simps)
    next
      case (Cons c cs)
      with Nil "1.prems"(1) have "g \<in> set (findall_from ic r (c # bef) cs)"
        by (simp add: findall_from.simps)
      from "1.IH"(1) [OF Nil Cons this r] obtain u s b1 r1 g1 where
        h: "cs = u @ s" "(b1, r1, g1) \<in> set (rx_step ic p (rev u @ c # bef, s, []))"
           "r1 \<noteq> []" "is_digit (hd r1)" "g = takeWhile is_digit r1" by blast
      from h Cons have "rest = (c # u) @ s \<and> (b1, r1, g1) \<in> set (rx_step ic p (rev (c # u) @ bef, s, []))"
        by simp
      with h show ?thesis by blast
    qed
  next
    case (Cons st sts)
    obtain bef' rest' g' where st: "st = (bef', rest', g')" by (cases st)
    from Cons st r have step: "rx_step ic (Seq p (Grp (Plus Digits))) (bef, rest, []) = (bef', rest', g') # sts"
      by simp
    from seq_digits_first [OF step] obtain b1 r1 g1 where
      first: "(b1, r1, g1) \<in> set (rx_step ic p (bef, rest, []))" "r1 \<noteq> []" "is_digit (hd r1)"
             "g' = takeWhile is_digit r1" "rest' = dropWhile is_digit r1" by blast
    from rx_step_consumes [OF first(1)] have "length r1 \<le> length rest" by auto
    moreover from first(2,3) have "length (dropWhile is_digit r1) < length r1"
      by (cases r1) (auto intro: le_imp_less_Suc length_dropWhile_le)
    ultimately have shorter: "length rest' < length rest" using first(5) by simp
    from Cons st have "(bef', rest', g') \<in> set (rx_step ic r (bef, rest, []))" by simp
    from rx_step_consumes [OF this] obtain cons where
      cons: "rest = cons @ rest'" "bef' = rev cons @ bef" by blast
    from Cons st shorter "1.prems"(1)
    have "g = g' \<or> g \<in> set (findall_from ic r bef' rest')"
      by (simp add: findall_from.simps)
    then show ?thesis
    proof
      assume "g = g'"
      with first have "rest = [] @ rest \<and> (b1, r1, g1) \<in> set (rx_step ic p (rev [] @ bef, rest, []))
          \<and> r1 \<noteq> [] \<and> is_digit (hd r1) \<and> g = takeWhile is_digit r1" by simp
      then show ?thesis by blast
    next
      assume "g \<in> set (findall_from ic r bef' rest')"
      from "1.IH"(2) [OF Cons st [symmetric] refl shorter this r] obtain u s b2 r2 g2 where
        h: "rest' = u @ s" "(b2, r2, g2) \<in> set (rx_step ic p (rev u @ bef', s, []))"
           "r2 \<noteq> []" "is_digit (hd r2)" "g = takeWhile is_digit r2" by blast
      from h cons have "rest = (cons @ u) @ s
          \<and> (b2, r2, g2) \<in> set (rx_step ic p (rev (cons @ u) @ bef, s, []))" by simp
      with h show ?thesis by blast
    qed
  qed
qed

lemma lower_hash: "lower d = CHR ''#'' \<Longrightarrow> d = CHR ''#''"
  by (auto simp: lower_def split: if_splits)

lemma chr_eq_hash: "chr_eq ic CHR ''#'' d \<longleftrightarrow> d = CHR ''#''"
proof -
  have l: "lower CHR ''#'' = CHR ''#''" by (simp add: lower_def)
  show ?thesis
  proof (cases ic)
    case True
    have "lower CHR ''#'' = lower d \<longleftrightarrow> d = CHR ''#''"
      using lower_hash [of d] l by auto
    with True show ?thesis by (simp add: chr_eq_def)
  next
    case False
    then show ?thesis by (auto simp: chr_eq_def)
  qed
qed

lemma dropWhile_keeps_hash:
  "\<not> P h \<Longrightarrow> \<exists>u'. dropWhile P (u @ h # ds) = u' @ h # ds"
proof (induction u)
  case Nil
  then have "dropWhile P ([] @ h # ds) = [] @ h # ds" by simp
  then show ?case by blast
next
  case (Cons a u)
  show ?case
  proof (cases "P a")
    case True
    with Cons show ?thesis by simp
  next
    case False
    then have "dropWhile P ((a # u) @ h # ds) = (a # u) @ h # ds" by simp
    then show ?thesis by blast
  qed
qed

lemma hash_not_digit: "\<not> is_digit CHR ''#''"
  by (simp add: is_digit_def)

lemma hashtag_step_Nil:
  "rx_step False hashtag_pattern (bef, rest, []) = [] \<longleftrightarrow>
     \<not> (\<exists>ds. rest = CHR ''#'' # ds \<and> ds \<noteq> [] \<and> is_digit (hd ds))"
  by (cases rest) (auto simp: hashtag_pattern_def chr_eq_def plus_states_Nil)

lemma findall_hashtag_complete:
  "rest = u @ CHR ''#'' # ds \<Longrightarrow> ds \<noteq> [] \<Longrightarrow> is_digit (hd ds) \<Longrightarrow> ic = False \<Longrightarrow>
     r = hashtag_pattern \<Longrightarrow> takeWhile is_digit ds \<in> set (findall_from ic r bef rest)"
proof (induction ic r bef rest arbitrary: u rule: findall_from.induct)
  case (1 ic r bef rest)
  note r = \<open>r = hashtag_pattern\<close> and ic = \<open>ic = False\<close>
  show ?case
  proof (cases "rx_step ic r (bef, rest, [])")
    case Nil
    with r ic have no: "\<not> (\<exists>ds. rest = CHR ''#'' # ds \<and> ds \<noteq> [] \<and> is_digit (hd ds))"
      by (simp add: hashtag_step_Nil)
    with "1.prems"(1-3) obtain c u' where u: "u = c # u'" by (cases u) auto
    with "1.prems"(1) have rest: "rest = c # (u' @ CHR ''#'' # ds)" by simp
    from "1.IH"(1) [OF Nil rest refl "1.prems"(2,3) ic r]
    have "takeWhile is_digit ds \<in> set (findall_from ic r (c # bef) (u' @ CHR ''#'' # ds))" .
    with Nil rest show ?thesis by (simp add: findall_from.simps)
  next
    case (Cons st sts)
    obtain bef' rest' g' where st: "st = (bef', rest', g')" by (cases st)
    from Cons st r have step:
      "rx_step ic (Seq (Lit CHR ''#'') (Grp (Plus Digits))) (bef, rest, []) = (bef', rest', g') # sts"
      by (simp add: hashtag_pattern_def)
    from seq_digits_first [OF step] obtain b1 r1 g1 where
      first: "(b1, r1, g1) \<in> set (rx_step ic (Lit CHR ''#'') (bef, rest, []))" "r1 \<noteq> []"
             "is_digit (hd r1)" "g' = takeWhile is_digit r1" "rest' = dropWhile is_digit r1" by blast
    from first(1) have rest: "rest = CHR ''#'' # r1"
      by (cases rest) (auto simp: chr_eq_hash split: if_splits)
    from first(2,3) have "length (dropWhile is_digit r1) < length r1"
      by (cases r1) (auto intro: le_imp_less_Suc length_dropWhile_le)
    with rest first(5) have shorter: "length rest' < length rest" by simp
    from Cons st shorter have unfold:
      "findall_from ic r bef rest = g' # findall_from ic r bef' rest'"
      by (simp add: findall_from.simps)
    show ?thesis
    proof (cases u)
      case Nil
      with "1.prems"(1) rest have "ds = r1" by simp
      with first(4) unfold show ?thesis by simp
    next
      case (Cons c u')
      with "1.prems"(1) rest have "r1 = u' @ CHR ''#'' # ds" by simp
      with first(5) dropWhile_keeps_hash [of is_digit "CHR ''#''" u' ds] hash_not_digit
      obtain u'' where u'': "rest' = u'' @ CHR ''#'' # ds" by auto
      from "1.IH"(2) [OF \<open>rx_step ic r (bef, rest, []) = st # sts\<close> st [symmetric] refl shorter u''
          "1.prems"(2,3) ic r] unfold
      show ?thesis by simp
    qed
  qed
qed

lemma lits_consumes:
  "(b1, r1, g1) \<in> set (rx_step False (lits w) (b, s, g)) \<Longrightarrow> s = w @ r1"
proof (induction w arbitrary: b s)
  case Nil
  then show ?case by simp
next
  case (Cons c w)
  then show ?case by (cases s) (auto simp: chr_eq_def split: if_splits)
qed

lemma ends_hash_consumes:
  "(b1, r1, g1) \<in> set (rx_step ic (Seq p (Lit CHR ''#'')) (b, s, g)) \<Longrightarrow>
     \<exists>v. s = v @ CHR ''#'' # r1"
proof -
  assume "(b1, r1, g1) \<in> set (rx_step ic (Seq p (Lit CHR ''#'')) (b, s, g))"
  then obtain b0 r0 g0 where p: "(b0, r0, g0) \<in> set (rx_step ic p (b, s, g))"
    and l: "(b1, r1, g1) \<in> set (rx_step ic (Lit CHR ''#'') (b0, r0, g0))" by auto
  from l have "r0 = CHR ''#'' # r1" by (cases r0) (auto simp: chr_eq_hash split: if_splits)
  with rx_step_consumes [OF p] show ?thesis by auto
qed

lemma findall_hashtag_iff:
  "g \<in> set (re_findall False hashtag_pattern text) \<longleftrightarrow> digits_after ''#'' text g"
proof
  assume "g \<in> set (re_findall False hashtag_pattern text)"
  then have "g \<in> set (findall_from False hashtag_pattern [] text)" by (simp add: re_findall_def)
  from findall_sound [OF this, of "Lit CHR ''#''"] obtain u s b1 r1 g1 where
    h: "text = u @ s" "(b1, r1, g1) \<in> set (rx_step False (Lit CHR ''#'') (rev u @ [], s, []))"
       "r1 \<noteq> []" "is_digit (hd r1)" "g = takeWhile is_digit r1"
    by (auto simp: hashtag_pattern_def)
  from h(2) have "s = ''#'' @ r1" by (cases s) (auto simp: chr_eq_hash split: if_splits)
  with h show "digits_after ''#'' text g" unfolding digits_after_def by blast
next
  assume "digits_after ''#'' text g"
  then obtain u ds where "text = u @ CHR ''#'' # ds" "ds \<noteq> []" "is_digit (hd ds)"
    "g = takeWhile is_digit ds" unfolding digits_after_def by auto
  with findall_hashtag_complete [of "text" u ds False hashtag_pattern "[]"]
  show "g \<in> set (re_findall False hashtag_pattern text)" by (simp add: re_findall_def)
qed

lemma findall_closing_sound:
  "g \<in> set (re_findall ic (Seq (Seq p (Lit CHR ''#'')) (Grp (Plus Digits))) text) \<Longrightarrow>
     digits_after ''#'' text g"
proof -
  assume "g \<in> set (re_findall ic (Seq (Seq p (Lit CHR ''#'')) (Grp (Plus Digits))) text)"
  then have "g \<in> set (findall_from ic (Seq (Seq p (Lit CHR ''#'')) (Grp (Plus Digits))) [] text)"
    by (simp add: re_findall_def)
  from findall_sound [OF this refl] obtain u s b1 r1 g1 where
    h: "text = u @ s" "(b1, r1, g1) \<in> set (rx_step ic (Seq p (Lit CHR ''#'')) (rev u @ [], s, []))"
       "r1 \<noteq> []" "is_digit (hd r1)" "g = takeWhile is_digit r1" by blast
  from ends_hash_consumes [OF h(2)] obtain v where "s = v @ CHR ''#'' # r1" by blast
  with h have "text = (u @ v) @ ''#'' @ r1" by simp
  with h show ?thesis unfolding digits_after_def by blast
qed

lemma findall_url_sound:
  "g \<in> set (re_findall False (url_pattern owner repo) text) \<Longrightarrow>
     digits_after (''https://github.com/'' @ owner @ ''/'' @ repo @ ''/pull/'') text g"
proof -
  let ?w = "''https://github.com/'' @ owner @ ''/'' @ repo @ ''/pull/''"
  assume "g \<in> set (re_findall False (url_pattern owner repo) text)"
  then have "g \<in> set (findall_from False (Seq (lits ?w) (Grp (Plus Digits))) [] text)"
    by (simp add: re_findall_def url_pattern_def)
  from findall_sound [OF this refl] obtain u s b1 r1 g1 where
    h: "text = u @ s" "(b1, r1, g1) \<in> set (rx_step False (lits ?w) (rev u @ [], s, []))"
       "r1 \<noteq> []" "is_digit (hd r1)" "g = takeWhile is_digit r1" by blast
  from lits_consumes [OF h(2)] have "s = ?w @ r1" .
  with h show ?thesis unfolding digits_after_def by blast
qed

lemma closing_subset_hashtag:
  "set (re_findall True closing_pattern text) \<subseteq> set (re_findall False hashtag_pattern text)"
  using findall_closing_sound [of _ True "Seq closing_verbs (Plus Spaces)" "text"]
  by (auto simp: closing_pattern_def findall_hashtag_iff)

subsection \<open>Reference extraction\<close>

lemma digit_follows_append: "digit_follows w t \<Longrightarrow> digit_follows w (u @ t)"
  by (induction u) auto

lemma digits_after_follows: "digits_after w t g \<Longrightarrow> digit_follows w t"
proof -
  assume "digits_after w t g"
  then obtain u ds where t: "t = u @ w @ ds" and ds: "ds \<noteq> []" "is_digit (hd ds)"
    unfolding digits_after_def by blast
  from ds obtain d ds' where d: "ds = d # ds'" "is_digit d" by (cases ds) auto
  have "digit_follows w (w @ ds)"
  proof (cases "w @ ds")
    case Nil
    with ds show ?thesis by simp
  next
    case (Cons c cs)
    have "prefix w (w @ ds)" by simp
    moreover have "drop (length w) (w @ ds) = d # ds'" using d by simp
    ultimately show ?thesis using d Cons by (metis digit_follows.simps(2) list.simps(5))
  qed
  with t show ?thesis by (simp add: digit_follows_append)
qed

lemma set_order_Nil: "set_order list_set \<Longrightarrow> list_set [] = []"
  by (metis set_order_def set_empty)

lemma set_order_remdups: "set_order remdups"
  by (simp add: set_order_def)

lemma findall_closing_Nil:
  "\<not> digit_follows ''#'' t \<Longrightarrow> re_findall True closing_pattern t = []"
proof (rule ccontr)
  assume no: "\<not> digit_follows ''#'' t" and "re_findall True closing_pattern t \<noteq> []"
  then obtain g where "g \<in> set (re_findall True closing_pattern t)"
    by (cases "re_findall True closing_pattern t") auto
  with closing_subset_hashtag [of t] have "g \<in> set (re_findall False hashtag_pattern t)"
    by blast
  then have "digits_after ''#'' t g"
    by (simp add: findall_hashtag_iff)
  with no show False by (auto dest: digits_after_follows)
qed

subsection \<open>The selection loop\<close>

lemma get_pr_eq:
  "get_pr gh owner repo k = (fetched_pr gh owner repo k, [GetPull owner repo k])"
  by (simp add: get_pr_def fetched_pr_def Let_def)


lemma select_loop_strong:
  "strong_at gh owner repo n k \<Longrightarrow>
     select_loop gh owner repo n (k # rest) sp sent
     = (fetched_pr gh owner repo k, sent @ [GetPull owner repo k])"
  by (auto simp: get_pr_eq strong_at_def strong_match_def eligible_def pr_body_text_def
      split: option.splits)

lemma select_loop_weak:
  "eligible_at gh owner repo n k \<Longrightarrow> \<not> strong_at gh owner repo n k \<Longrightarrow>
     select_loop gh owner repo n (k # rest) sp sent
     = select_loop gh owner repo n rest
         (case sp of None \<Rightarrow> fetched_pr gh owner repo k | Some q \<Rightarrow> Some q)
         (sent @ [GetPull owner repo k])"
  by (auto simp: get_pr_eq strong_at_def eligible_at_def strong_match_def eligible_def
      pr_body_text_def split: option.splits)

lemma select_loop_skip:
  "\<not> eligible_at gh owner repo n k \<Longrightarrow>
     select_loop gh owner repo n (k # rest) sp sent
     = select_loop gh owner repo n rest sp (sent @ [GetPull owner repo k])"
  by (auto simp: get_pr_eq eligible_at_def eligible_def pr_body_text_def Let_def
      split: option.splits)

lemma strong_at_eligible: "strong_at gh owner repo n k \<Longrightarrow> eligible_at gh owner repo n k"
  by (auto simp: strong_at_def eligible_at_def strong_match_def split: option.splits)

lemma select_loop_char:
  "select_loop gh owner repo n cands sp sent =
     (case List.find (strong_at gh owner repo n) cands of
        Some k \<Rightarrow> (fetched_pr gh owner repo k,
                   sent @ map (GetPull owner repo)
                            (takeWhile (\<lambda>j. \<not> strong_at gh owner repo n j) cands @ [k]))
      | None \<Rightarrow> ((case sp of
                    Some q \<Rightarrow> Some q
                  | None \<Rightarrow> (case List.find (eligible_at gh owner repo n) cands of
                               None \<Rightarrow> None
                             | Some k \<Rightarrow> fetched_pr gh owner repo k)),
                 sent @ map (GetPull owner repo) cands))"
proof (induction cands arbitrary: sp sent)
  case Nil
  then show ?case by (simp split: option.splits)
next
  case (Cons k rest)
  consider (strong) "strong_at gh owner repo n k"
    | (weak) "eligible_at gh owner repo n k" "\<not> strong_at gh owner repo n k"
    | (skip) "\<not> eligible_at gh owner repo n k" "\<not> strong_at gh owner repo n k"
    using strong_at_eligible by blast
  then show ?case
  proof cases
    case strong
    then show ?thesis by (simp add: select_loop_strong del: select_loop.simps)
  next
    case weak
    then have "fetched_pr gh owner repo k \<noteq> None"
      by (auto simp: eligible_at_def split: option.splits)
    with weak show ?thesis
      by (auto simp add: select_loop_weak Cons.IH simp del: select_loop.simps split: option.splits)
  next
    case skip
    then show ?thesis
      by (simp add: select_loop_skip Cons.IH del: select_loop.simps split: option.splits)
  qed
qed

subsection \<open>Pagination\<close>

lemma comments_loop_stop_here:
  "page_stops gh owner repo n page \<Longrightarrow>
     comments_loop gh owner repo n page cs sent = Some (cs, sent @ [GetComments owner repo n page])"
  by (subst comments_loop.simps) (auto simp: page_stops_def)

lemma comments_loop_next:
  "\<not> page_stops gh owner repo n page \<Longrightarrow>
     comments_loop gh owner repo n page cs sent
     = comments_loop gh owner repo n (Suc page) (cs @ json (comments_api gh owner repo n page))
         (sent @ [GetComments owner repo n page])"
  by (subst comments_loop.simps) (auto simp: page_stops_def)


lemma comments_loop_first_stop:
  "page \<le> p \<Longrightarrow> page_stops gh owner repo n p \<Longrightarrow>
   (\<forall>q. page \<le> q \<and> q < p \<longrightarrow> \<not> page_stops gh owner repo n q) \<Longrightarrow>
     comments_loop gh owner repo n page cs sent
     = Some (cs @ concat (map (\<lambda>q. json (comments_api gh owner repo n q)) [page..<p]),
             sent @ map (GetComments owner repo n) [page..<Suc p])"
proof (induction "p - page" arbitrary: page cs sent)
  case 0
  then have "page = p" by simp
  with "0.prems"(2) show ?case by (simp add: comments_loop_stop_here)
next
  case (Suc d)
  then have lt: "page < p" by simp
  with Suc.prems(3) have go: "\<not> page_stops gh owner repo n page" by simp
  from Suc.hyps(2) lt have d: "d = p - Suc page" by simp
  from lt have le: "Suc page \<le> p" by simp
  from Suc.prems(3) have rest: "\<forall>q. Suc page \<le> q \<and> q < p \<longrightarrow> \<not> page_stops gh owner repo n q"
    by simp
  note ih = Suc.hyps(1) [OF d le Suc.prems(2) rest,
      of "cs @ json (comments_api gh owner repo n page)" "sent @ [GetComments owner repo n page]"]
  from lt have upt1: "[page..<p] = page # [Suc page..<p]"
    by (simp add: upt_conv_Cons)
  from lt have upt2: "[page..<Suc p] = page # [Suc page..<Suc p]"
    by (simp add: upt_conv_Cons del: upt_Suc)
  show ?case
    unfolding comments_loop_next [OF go] ih upt1 upt2 by simp
qed

lemma pull_numbers_append: "pull_numbers (xs @ ys) = pull_numbers xs @ pull_numbers ys"
  by (induction xs rule: pull_numbers.induct) simp_all

lemma comments_loop_no_pulls:
  assumes "comments_loop gh owner repo n page cs sent = Some res"
  shows "pull_numbers (snd res) = pull_numbers sent"
  by (rule comments_loop.raw_induct
        [where P = "\<lambda>gh owner repo n page cs sent res. pull_numbers (snd res) = pull_numbers sent",
          OF _ assms])
    (auto simp: pull_numbers_append split: if_splits)

lemma find_first:
  "\<forall>j \<in> set pre. \<not> P j \<Longrightarrow> P k \<Longrightarrow> List.find P (pre @ k # post) = Some k"
  by (induction pre) auto

lemma find_none: "\<forall>j \<in> set xs. \<not> P j \<Longrightarrow> List.find P xs = None"
  by (induction xs) auto

lemma takeWhile_first:
  "\<forall>j \<in> set pre. \<not> P j \<Longrightarrow> P k \<Longrightarrow> takeWhile (\<lambda>j. \<not> P j) (pre @ k # post) = pre"
  by (induction pre) auto

lemma select_loop_first_strong:
  assumes "\<forall>j \<in> set pre. \<not> strong_at gh owner repo n j" and "strong_at gh owner repo n k"
  shows "select_loop gh owner repo n (pre @ k # post) sp sent
         = (fetched_pr gh owner repo k, sent @ map (GetPull owner repo) (pre @ [k]))"
  using assms by (simp add: select_loop_char find_first takeWhile_first)

subsection \<open>The requests of a run\<close>

lemma pull_numbers_map: "pull_numbers (map (GetPull owner repo) ks) = ks"
  by (induction ks) simp_all

lemma find_takeWhile_prefix:
  "List.find P xs = Some k \<Longrightarrow> prefix (takeWhile (\<lambda>j. \<not> P j) xs @ [k]) xs"
  by (induction xs) (auto split: if_splits)

lemma select_loop_sent:
  "\<exists>ks. prefix ks cands
     \<and> snd (select_loop gh owner repo n cands sp sent) = sent @ map (GetPull owner repo) ks"
proof (cases "List.find (strong_at gh owner repo n) cands")
  case None
  then have "snd (select_loop gh owner repo n cands sp sent) = sent @ map (GetPull owner repo) cands"
    by (simp add: select_loop_char)
  then show ?thesis by blast
next
  case (Some k)
  then have "snd (select_loop gh owner repo n cands sp sent)
      = sent @ map (GetPull owner repo) (takeWhile (\<lambda>j. \<not> strong_at gh owner repo n j) cands @ [k])"
    by (simp add: select_loop_char)
  with find_takeWhile_prefix [OF Some] show ?thesis by blast
qed

lemma get_issue_sent: "pull_numbers (snd (get_issue gh owner repo n)) = []"
  by (simp add: get_issue_def Let_def)

lemma get_issue_events_sent: "pull_numbers (snd (get_issue_events gh owner repo n)) = []"
  by (simp add: get_issue_events_def Let_def)

lemma get_issue_comments_sent:
  "get_issue_comments gh owner repo n = Some (cs, sent) \<Longrightarrow> pull_numbers sent = []"
  using comments_loop_no_pulls [of gh owner repo n 1 "[]" "[]" "(cs, sent)"]
  by (simp add: get_issue_comments_def)

lemma find_solving_pr_pulls:
  assumes "set_order list_set"
    and "find_solving_pr gh list_set owner repo n = Some (res, sent)"
  shows "distinct (pull_numbers sent)"
proof (cases "get_issue gh owner repo n")
  case (Pair ri si)
  note gi = Pair
  from get_issue_sent [of gh owner repo n] gi have si: "pull_numbers si = []" by simp
  show ?thesis
  proof (cases ri)
    case (Inl e)
    with gi assms(2) si show ?thesis by (simp add: find_solving_pr_def)
  next
    case (Inr issue)
    from assms(2) gi Inr obtain cs sc where
      gc: "get_issue_comments gh owner repo n = Some (cs, sc)"
      by (auto simp: find_solving_pr_def split: option.splits)
    from get_issue_comments_sent [OF gc] have sc: "pull_numbers sc = []" .
    obtain evs se where ge: "get_issue_events gh owner repo n = (evs, se)"
      by (cases "get_issue_events gh owner repo n")
    with get_issue_events_sent [of gh owner repo n] have se: "pull_numbers se = []" by simp
    show ?thesis
    proof (cases "event_refs evs")
      case (Inl e)
      with assms(2) gi \<open>ri = Inr issue\<close> gc ge si sc se show ?thesis
        by (auto simp: find_solving_pr_def pull_numbers_append)
    next
      case (Inr refs)
      define cands where "cands = list_set
         (body_refs list_set (issue_body issue) owner repo
          @ concat (map (\<lambda>c. body_refs list_set (comment_body c) owner repo) cs) @ refs)"
      from assms(1) have dc: "distinct cands" by (simp add: cands_def set_order_def)
      obtain sp ss where sl: "select_loop gh owner repo n cands None [] = (sp, ss)"
        by (cases "select_loop gh owner repo n cands None []")
      from select_loop_sent [of cands gh owner repo n None "[]"] sl obtain ks where
        ks: "prefix ks cands" "ss = map (GetPull owner repo) ks" by auto
      from ks(1) dc have "distinct ks" by (auto simp: prefix_def)
      with ks(2) have "distinct (pull_numbers ss)" by (simp add: pull_numbers_map)
      moreover from assms(2) gi \<open>ri = Inr issue\<close> gc ge Inr sl
      have "sent = si @ sc @ se @ ss"
        by (simp add: find_solving_pr_def cands_def [symmetric] del: select_loop.simps)
      ultimately show ?thesis using si sc se by (simp add: pull_numbers_append)
    qed
  qed
qed

lemma get_issue_comments_stops:
  assumes "1 \<le> p" and "page_stops gh owner repo n p"
  shows "\<exists>k. 1 \<le> k \<and> k \<le> p \<and> page_stops gh owner repo n k
           \<and> (\<forall>q. 1 \<le> q \<and> q < k \<longrightarrow> \<not> page_stops gh owner repo n q)
           \<and> get_issue_comments gh owner repo n
               = Some (concat (map (\<lambda>q. json (comments_api gh owner repo n q)) [1..<k]),
                       map (GetComments owner repo n) [1..<Suc k])"
proof -
  let ?S = "\<lambda>k. 1 \<le> k \<and> page_stops gh owner repo n k"
  define k where "k = (LEAST k. ?S k)"
  from assms have ex: "?S p" by simp
  have k: "?S k" unfolding k_def using ex by (rule LeastI)
  have kp: "k \<le> p" unfolding k_def using ex by (rule Least_le)
  have least: "\<forall>q. 1 \<le> q \<and> q < k \<longrightarrow> \<not> page_stops gh owner repo n q"
  proof (intro allI impI)
    fix q assume q: "1 \<le> q \<and> q < k"
    then have "q < (LEAST k. ?S k)" by (simp add: k_def)
    then have "\<not> ?S q" by (rule not_less_Least)
    with q show "\<not> page_stops gh owner repo n q" by simp
  qed
  from k have k1: "1 \<le> k" and ks: "page_stops gh owner repo n k" by simp_all
  have "comments_loop gh owner repo n 1 [] []
        = Some ([] @ concat (map (\<lambda>q. json (comments_api gh owner repo n q)) [1..<k]),
                [] @ map (GetComments owner repo n) [1..<Suc k])"
    using k1 ks least by (rule comments_loop_first_stop)
  then have "get_issue_comments gh owner repo n
               = Some (concat (map (\<lambda>q. json (comments_api gh owner repo n q)) [1..<k]),
                       map (GetComments owner repo n) [1..<Suc k])"
    unfolding get_issue_comments_def by simp
  with k1 ks kp least show ?thesis by blast
qed

subsection \<open>Failures of the fetches\<close>








subsection \<open>The identifier\<close>













subsection \<open>The command\<close>





section \<open>Claims\<close>

text \<open>
  C10. In the mention test the first disjunct is redundant: a body that contains \<open>#N\<close>
  contains the decimal string of \<open>N\<close>, so the test holds exactly when the body contains the
  decimal string of \<open>N\<close>; the body \<open>1429\<close> passes the test for issue 42.
\<close>

theorem mentions_issue_bare_number:
  "(py_in (CHR ''#'' # str_int n) body \<longrightarrow> py_in (str_int n) body)
   \<and> (mentions_issue n body \<longleftrightarrow> py_in (str_int n) body)
   \<and> mentions_issue 42 ''1429''"
proof (intro conjI)
  show hash: "py_in (CHR ''#'' # str_int n) body \<longrightarrow> py_in (str_int n) body"
    by (blast intro: py_in_tail)
  from hash show "mentions_issue n body \<longleftrightarrow> py_in (str_int n) body"
    by (auto simp: mentions_issue_def)
  show "mentions_issue 42 ''1429''"
    by (simp add: mentions_issue_def str_int_def str_nat_42)
qed

theorem mentions_issue_bare_number_witness:
  "py_in (CHR ''#'' # str_int 7) ''see #7'' \<and> py_in (str_int 7) ''see #7''
   \<and> mentions_issue 7 ''see #7''"
proof -
  have h: "py_in (CHR ''#'' # str_int 7) ''see #7''"
    by (simp add: str_int_def str_nat.simps [of 7] digit_chr_def)
  with mentions_issue_bare_number [of 7 "''see #7''"] show ?thesis
    by blast
qed

text \<open>
  C3 (as amended). If the text has no digit immediately after a \<open>#\<close> and no digit
  immediately after the pull-request URL prefix of the same owner and repository,
  \<open>extract_pr_references\<close> returns the empty list.
\<close>

theorem extract_pr_references_empty:
  assumes "set_order list_set"
    and "\<not> digit_follows ''#'' t"
    and "\<not> digit_follows (''https://github.com/'' @ owner @ ''/'' @ repo @ ''/pull/'') t"
  shows "extract_pr_references list_set t owner repo = []"
proof -
  have h: "re_findall False hashtag_pattern t = []"
  proof (rule ccontr)
    assume "re_findall False hashtag_pattern t \<noteq> []"
    then obtain g where "g \<in> set (re_findall False hashtag_pattern t)"
      by (cases "re_findall False hashtag_pattern t") auto
    with assms(2) show False by (auto simp: findall_hashtag_iff dest: digits_after_follows)
  qed
  have u: "re_findall False (url_pattern owner repo) t = []"
  proof (rule ccontr)
    assume "re_findall False (url_pattern owner repo) t \<noteq> []"
    then obtain g where "g \<in> set (re_findall False (url_pattern owner repo) t)"
      by (cases "re_findall False (url_pattern owner repo) t") auto
    with assms(3) show False by (auto dest!: findall_url_sound digits_after_follows)
  qed
  from h u findall_closing_Nil [OF assms(2)] set_order_Nil [OF assms(1)]
  show ?thesis by (simp add: extract_pr_references_def)
qed

theorem extract_pr_references_empty_witness:
  "set_order remdups
   \<and> \<not> digit_follows ''#'' ''fix it, close #, resolve 7''
   \<and> \<not> digit_follows (''https://github.com/'' @ ''o'' @ ''/'' @ ''r'' @ ''/pull/'') ''fix it, close #, resolve 7''
   \<and> extract_pr_references remdups ''fix it, close #, resolve 7'' ''o'' ''r'' = []"
proof -
  have a: "set_order remdups" by (rule set_order_remdups)
  have b: "\<not> digit_follows ''#'' ''fix it, close #, resolve 7''" by (simp add: is_digit_def)
  have c: "\<not> digit_follows (''https://github.com/'' @ ''o'' @ ''/'' @ ''r'' @ ''/pull/'') ''fix it, close #, resolve 7''"
    by simp
  from extract_pr_references_empty [OF a b c] a b c show ?thesis by blast
qed

text \<open>
  C3 (as stated) fails: a text with no digit after \<open>#\<close>, \<open>fix\<close>, \<open>close\<close> or
  \<open>resolve\<close> still yields a candidate through the URL pattern.
\<close>

theorem extract_pr_references_url_counterexample:
  "\<not> digit_follows ''#'' ''https://github.com/o/r/pull/5''
   \<and> \<not> digit_follows ''fix'' ''https://github.com/o/r/pull/5''
   \<and> \<not> digit_follows ''close'' ''https://github.com/o/r/pull/5''
   \<and> \<not> digit_follows ''resolve'' ''https://github.com/o/r/pull/5''
   \<and> extract_pr_references remdups ''https://github.com/o/r/pull/5'' ''o'' ''r'' = [5]"
  by code_simp

text \<open>
  C9. For every text the candidates of the closing-keyword pattern are among the candidates
  of the hashtag pattern, so \<open>extract_pr_references\<close> returns, as a set, the union of the
  candidates of the hashtag and URL patterns alone.
\<close>

theorem closing_refs_subset_hashtag_refs:
  "set (map int_of_match (re_findall True closing_pattern t))
     \<subseteq> set (map int_of_match (re_findall False hashtag_pattern t))
   \<and> (set_order list_set \<longrightarrow>
        set (extract_pr_references list_set t owner repo)
        = set (map int_of_match (re_findall False hashtag_pattern t))
          \<union> set (map int_of_match (re_findall False (url_pattern owner repo) t)))"
proof (intro conjI impI)
  show sub: "set (map int_of_match (re_findall True closing_pattern t))
     \<subseteq> set (map int_of_match (re_findall False hashtag_pattern t))"
    using closing_subset_hashtag [of t] by auto
  assume "set_order list_set"
  then have "set (extract_pr_references list_set t owner repo)
    = set (map int_of_match (re_findall False hashtag_pattern t))
      \<union> set (map int_of_match (re_findall False (url_pattern owner repo) t))
      \<union> set (map int_of_match (re_findall True closing_pattern t))"
    by (simp add: extract_pr_references_def set_order_def Un_assoc)
  with sub show "set (extract_pr_references list_set t owner repo)
        = set (map int_of_match (re_findall False hashtag_pattern t))
          \<union> set (map int_of_match (re_findall False (url_pattern owner repo) t))"
    by blast
qed

theorem closing_refs_subset_hashtag_refs_witness:
  "set_order remdups
   \<and> re_findall True closing_pattern ''Fixes #12, see https://github.com/o/r/pull/9'' = [''12'']
   \<and> set (extract_pr_references remdups ''Fixes #12, see https://github.com/o/r/pull/9'' ''o'' ''r'')
      = set (map int_of_match (re_findall False hashtag_pattern ''Fixes #12, see https://github.com/o/r/pull/9''))
        \<union> set (map int_of_match (re_findall False (url_pattern ''o'' ''r'') ''Fixes #12, see https://github.com/o/r/pull/9''))"
proof -
  have a: "set_order remdups" by (rule set_order_remdups)
  have b: "re_findall True closing_pattern ''Fixes #12, see https://github.com/o/r/pull/9'' = [''12'']"
    by code_simp
  from closing_refs_subset_hashtag_refs [of "''Fixes #12, see https://github.com/o/r/pull/9''" remdups "''o''" "''r''"] a b
  show ?thesis by blast
qed

text \<open>
  C8. Comment retrieval asks for the pages in order from page 1 and stops exactly at the
  first page that fails or is empty; it returns the comments of the pages before that one,
  without an error. If some page fails or is empty, the loop ends.
\<close>

theorem get_issue_comments_first_stop:
  assumes "1 \<le> p" and "page_stops gh owner repo n p"
  shows "\<exists>k. 1 \<le> k \<and> k \<le> p \<and> page_stops gh owner repo n k
           \<and> (\<forall>q. 1 \<le> q \<and> q < k \<longrightarrow> \<not> page_stops gh owner repo n q)
           \<and> get_issue_comments gh owner repo n
               = Some (concat (map (\<lambda>q. json (comments_api gh owner repo n q)) [1..<k]),
                       map (GetComments owner repo n) [1..<Suc k])"
  using assms by (rule get_issue_comments_stops)

theorem get_issue_comments_first_stop_witness:
  "(1 :: nat) \<le> 2 \<and> page_stops (example_github 200 Map.empty) ''octo'' ''repo'' 42 2
   \<and> get_issue_comments (example_github 200 Map.empty) ''octo'' ''repo'' 42
       = Some ([\<lparr>comment_body = Some ''fixed by #99, closes #42 via #99''\<rparr>],
               [GetComments ''octo'' ''repo'' 42 1, GetComments ''octo'' ''repo'' 42 2])"
proof -
  let ?gh = "example_github 200 Map.empty"
  have a: "(1 :: nat) \<le> 2" by simp
  have b: "page_stops ?gh ''octo'' ''repo'' 42 2"
    by (simp add: page_stops_def example_github_def)
  have c: "\<not> page_stops ?gh ''octo'' ''repo'' 42 1"
    by (simp add: page_stops_def example_github_def)
  from get_issue_comments_first_stop [OF a b] obtain k where
    k: "1 \<le> k" "k \<le> 2" "page_stops ?gh ''octo'' ''repo'' 42 k"
    and r: "get_issue_comments ?gh ''octo'' ''repo'' 42
       = Some (concat (map (\<lambda>q. json (comments_api ?gh ''octo'' ''repo'' 42 q)) [1..<k]),
               map (GetComments ''octo'' ''repo'' 42) [1..<Suc k])"
    by blast
  from k c have "k = 2" by (cases "k = 1") auto
  moreover have "[Suc 0..<2] = [Suc 0]" "[Suc 0..<3] = [Suc 0, 2]" by code_simp+
  ultimately have "get_issue_comments ?gh ''octo'' ''repo'' 42
       = Some ([\<lparr>comment_body = Some ''fixed by #99, closes #42 via #99''\<rparr>],
               [GetComments ''octo'' ''repo'' 42 1, GetComments ''octo'' ''repo'' 42 2])"
    using r by (simp add: example_github_def)
  with a b show ?thesis by blast
qed

text \<open>
  C2. When no candidate that the loop fetches is a strong match, the loop returns the first
  eligible pull request in the order of iteration (a weak match), and it returns nothing
  when no candidate is eligible: when every fetched pull request is absent, open, unmerged
  or has a body without the issue number.
\<close>

theorem select_loop_weak_or_none:
  assumes "\<forall>k \<in> set cands. \<not> strong_at gh owner repo n k"
  shows "(\<forall>pre k post. cands = pre @ k # post \<and> (\<forall>j \<in> set pre. \<not> eligible_at gh owner repo n j)
              \<and> eligible_at gh owner repo n k
            \<longrightarrow> fst (select_loop gh owner repo n cands None []) = fetched_pr gh owner repo k
                \<and> fetched_pr gh owner repo k \<noteq> None)
         \<and> ((\<forall>k \<in> set cands. \<not> eligible_at gh owner repo n k)
            \<longrightarrow> fst (select_loop gh owner repo n cands None []) = None)"
proof -
  from assms have none: "List.find (strong_at gh owner repo n) cands = None"
    by (rule find_none)
  show ?thesis
  proof (intro conjI allI impI)
    fix pre k post
    assume h: "cands = pre @ k # post \<and> (\<forall>j \<in> set pre. \<not> eligible_at gh owner repo n j)
              \<and> eligible_at gh owner repo n k"
    then have "List.find (eligible_at gh owner repo n) cands = Some k"
      by (simp add: find_first)
    with none show "fst (select_loop gh owner repo n cands None []) = fetched_pr gh owner repo k"
      by (simp add: select_loop_char)
    from h show "fetched_pr gh owner repo k \<noteq> None"
      by (auto simp: eligible_at_def split: option.splits)
  next
    assume "\<forall>k \<in> set cands. \<not> eligible_at gh owner repo n k"
    then have "List.find (eligible_at gh owner repo n) cands = None" by (rule find_none)
    with none show "fst (select_loop gh owner repo n cands None []) = None"
      by (simp add: select_loop_char)
  qed
qed

theorem select_loop_weak_or_none_witness:
  "\<not> strong_at (example_github 200 [99 \<mapsto> ''Related work, see issue 42'']) ''octo'' ''repo'' 42 7
   \<and> \<not> strong_at (example_github 200 [99 \<mapsto> ''Related work, see issue 42'']) ''octo'' ''repo'' 42 99
   \<and> \<not> strong_at (example_github 200 [99 \<mapsto> ''Related work, see issue 42'']) ''octo'' ''repo'' 42 42
   \<and> \<not> eligible_at (example_github 200 [99 \<mapsto> ''Related work, see issue 42'']) ''octo'' ''repo'' 42 7
   \<and> eligible_at (example_github 200 [99 \<mapsto> ''Related work, see issue 42'']) ''octo'' ''repo'' 42 99
   \<and> fst (select_loop (example_github 200 [99 \<mapsto> ''Related work, see issue 42'']) ''octo'' ''repo'' 42
            [7, 99, 42] None [])
      = Some (example_pr 99 ''Related work, see issue 42'')"
proof -
  let ?gh = "example_github 200 [99 \<mapsto> ''Related work, see issue 42'']"
  have s: "\<not> strong_at ?gh ''octo'' ''repo'' 42 7" "\<not> strong_at ?gh ''octo'' ''repo'' 42 99"
    "\<not> strong_at ?gh ''octo'' ''repo'' 42 42"
    by code_simp+
  have e: "\<not> eligible_at ?gh ''octo'' ''repo'' 42 7" "eligible_at ?gh ''octo'' ''repo'' 42 99"
    by code_simp+
  have f: "fetched_pr ?gh ''octo'' ''repo'' 99 = Some (example_pr 99 ''Related work, see issue 42'')"
    by code_simp
  from s have all: "\<forall>k \<in> set [7, 99, 42]. \<not> strong_at ?gh ''octo'' ''repo'' 42 k" by simp
  have split: "[7, 99, 42] = [7] @ 99 # [42 :: int]" by simp
  from e have pre: "\<forall>j \<in> set [7]. \<not> eligible_at ?gh ''octo'' ''repo'' 42 j" by simp
  have prem: "[7, 99, 42] = [7] @ 99 # [42 :: int] \<and> (\<forall>j \<in> set [7]. \<not> eligible_at ?gh ''octo'' ''repo'' 42 j)
              \<and> eligible_at ?gh ''octo'' ''repo'' 42 99"
    using split pre e(2) by (intro conjI)
  note inst = select_loop_weak_or_none [OF all, THEN conjunct1, rule_format, of "[7]" 99 "[42]"]
  from inst [OF prem]
  have "fst (select_loop ?gh ''octo'' ''repo'' 42 [7, 99, 42] None []) = fetched_pr ?gh ''octo'' ''repo'' 99"
    by (rule conjunct1)
  then have r: "fst (select_loop ?gh ''octo'' ''repo'' 42 [7, 99, 42] None [])
      = Some (example_pr 99 ''Related work, see issue 42'')"
    by (simp only: f)
  from s e r show ?thesis by (intro conjI)
qed

text \<open>
  C1 (evaluation). The pattern of line 151 reads \<open>fixes?\<close>: it matches \<open>fixe\<close> and
  \<open>fixes\<close> but not \<open>fix\<close>. For issue 42 and the candidates 1 and 2 in this order,
  where pull request 1 is closed and merged with body \<open>fix #42\<close> and pull request 2
  is closed and merged with body \<open>closes #42\<close>, the loop does not stop at pull request 1:
  it fetches both and returns pull request 2.
\<close>

theorem select_loop_fix_keyword:
  "re_search True (issue_closing_pattern 42) ''fix #42'' = None
   \<and> re_search True (issue_closing_pattern 42) ''fixe #42'' \<noteq> None
   \<and> select_loop (example_github 200 [1 \<mapsto> ''fix #42'', 2 \<mapsto> ''closes #42'']) ''octo'' ''repo'' 42
        [1, 2] None []
      = (Some (example_pr 2 ''closes #42''), [GetPull ''octo'' ''repo'' 1, GetPull ''octo'' ''repo'' 2])"
  by code_simp

text \<open>
  C7. The candidates are deduplicated before they are fetched: in a run of
  \<open>find_solving_pr\<close> no two requests for a pull request ask for the same number, and
  each extraction from a text returns a list without duplicates.
\<close>

theorem candidates_deduplicated:
  assumes "set_order list_set"
  shows "distinct (extract_pr_references list_set t owner repo)
         \<and> (\<forall>res sent. find_solving_pr gh list_set owner repo n = Some (res, sent)
               \<longrightarrow> distinct (pull_numbers sent))"
proof (intro conjI allI impI)
  from assms show "distinct (extract_pr_references list_set t owner repo)"
    by (simp add: extract_pr_references_def set_order_def)
next
  fix res sent
  assume "find_solving_pr gh list_set owner repo n = Some (res, sent)"
  with assms show "distinct (pull_numbers sent)" by (rule find_solving_pr_pulls)
qed


theorem candidates_deduplicated_witness:
  "set_order remdups
   \<and> find_solving_pr (example_github 200 [99 \<mapsto> ''Closes #42'']) remdups ''octo'' ''repo'' 42
       = Some (Inr (Some (example_pr 99 ''Closes #42'')),
               [GetIssue ''octo'' ''repo'' 42, GetComments ''octo'' ''repo'' 42 1,
                GetComments ''octo'' ''repo'' 42 2, GetEvents ''octo'' ''repo'' 42,
                GetPull ''octo'' ''repo'' 7, GetPull ''octo'' ''repo'' 99])
   \<and> distinct (extract_pr_references remdups ''fixed by #99, closes #42 via #99'' ''octo'' ''repo'')
   \<and> distinct (pull_numbers
        [GetIssue ''octo'' ''repo'' 42, GetComments ''octo'' ''repo'' 42 1,
         GetComments ''octo'' ''repo'' 42 2, GetEvents ''octo'' ''repo'' 42,
         GetPull ''octo'' ''repo'' 7, GetPull ''octo'' ''repo'' 99])"
proof -
  let ?gh = "example_github 200 [99 \<mapsto> ''Closes #42'']"
  have a: "set_order remdups" by (rule set_order_remdups)
  have b: "find_solving_pr ?gh remdups ''octo'' ''repo'' 42
       = Some (Inr (Some (example_pr 99 ''Closes #42'')),
               [GetIssue ''octo'' ''repo'' 42, GetComments ''octo'' ''repo'' 42 1,
                GetComments ''octo'' ''repo'' 42 2, GetEvents ''octo'' ''repo'' 42,
                GetPull ''octo'' ''repo'' 7, GetPull ''octo'' ''repo'' 99])"
    by code_simp
  note d = candidates_deduplicated [OF a, of "''fixed by #99, closes #42 via #99''" "''octo''" "''repo''" ?gh 42]
  from d have c: "distinct (extract_pr_references remdups ''fixed by #99, closes #42 via #99'' ''octo'' ''repo'')"
    by (rule conjunct1)
  from d [THEN conjunct2, rule_format, OF b]
  have e: "distinct (pull_numbers
        [GetIssue ''octo'' ''repo'' 42, GetComments ''octo'' ''repo'' 42 1,
         GetComments ''octo'' ''repo'' 42 2, GetEvents ''octo'' ''repo'' 42,
         GetPull ''octo'' ''repo'' 7, GetPull ''octo'' ''repo'' 99])" .
  from a b c e show ?thesis by (intro conjI)
qed










end
